theory Spec2Isabelle
  imports Main
begin

section \<open>The environment of the process\<close>

text \<open>
  The program of \<^verbatim>\<open>inheritance.cpp\<close> talks to a file system and to its standard streams.
  The file system maps a path to the bytes of the file stored there; \<open>unwritable\<close> holds
  the paths that \<^verbatim>\<open>fstream::open(..., fstream::out)\<close> refuses (missing directory, no
  permission). A path can be opened for reading exactly when a file is stored there.
  The file is used by one handle at a time (section 5 of the specification), so what is
  flushed through a write handle lands at the end of the file.
\<close>

record world =
  files :: "string \<rightharpoonup> string"
  unwritable :: "string set"
  cerr :: string
  cout :: string

abbreviation nl :: char where
  "nl \<equiv> CHR 0x0A"

subsection \<open>\<^verbatim>\<open>std::fstream\<close> as used for writing\<close>

text \<open>
  An output stream is attached to a path once it is open, and keeps the characters that
  were inserted but not yet flushed in \<open>pending\<close>.
\<close>

record fstream =
  is_open :: bool
  path :: string
  pending :: string

definition fstream_init :: fstream where
  "fstream_init = \<lparr>is_open = False, path = [], pending = []\<rparr>"

text \<open>\<^verbatim>\<open>outfile.open(filename, fstream::out)\<close>: creates the file or truncates it.\<close>

definition fstream_open :: "string \<Rightarrow> fstream \<Rightarrow> world \<Rightarrow> fstream \<times> world" where
  "fstream_open p s w =
     (if is_open s \<or> p \<in> unwritable w then (s, w)
      else (s\<lparr>is_open := True, path := p\<rparr>, w\<lparr>files := (files w)(p \<mapsto> [])\<rparr>))"

text \<open>\<^verbatim>\<open>outfile << str\<close>\<close>

definition fstream_put :: "string \<Rightarrow> fstream \<Rightarrow> fstream" where
  "fstream_put str s = (if is_open s then s\<lparr>pending := pending s @ str\<rparr> else s)"

text \<open>
  \<^verbatim>\<open>outfile.flush()\<close>: the pending characters go to the end of the file. When the path
  no longer names a file, they go to the unlinked file and no path shows them.
\<close>

definition fstream_flush :: "fstream \<Rightarrow> world \<Rightarrow> fstream \<times> world" where
  "fstream_flush s w =
     (if is_open s then
        (s\<lparr>pending := []\<rparr>,
         case files w (path s) of
           None \<Rightarrow> w
         | Some c \<Rightarrow> w\<lparr>files := (files w)(path s \<mapsto> c @ pending s)\<rparr>)
      else (s, w))"

text \<open>\<^verbatim>\<open>outfile.close()\<close>: flushes and detaches.\<close>

definition fstream_close :: "fstream \<Rightarrow> world \<Rightarrow> fstream \<times> world" where
  "fstream_close s w =
     (case fstream_flush s w of (s1, w1) \<Rightarrow> (s1\<lparr>is_open := False\<rparr>, w1))"

subsection \<open>\<^verbatim>\<open>std::ifstream\<close> and \<^verbatim>\<open>std::getline\<close>\<close>

text \<open>
  An input stream holds the characters not yet read and \<open>ok\<close>, which is what the
  stream converts to in a condition (\<^verbatim>\<open>!fail()\<close>).
\<close>

record ifstream =
  rest :: string
  ok :: bool

text \<open>\<^verbatim>\<open>ifstream infile(filename)\<close>: a path without a file gives a failed stream.\<close>

definition ifstream_open :: "string \<Rightarrow> world \<Rightarrow> ifstream \<times> world" where
  "ifstream_open p w =
     (case files w p of
        None \<Rightarrow> (\<lparr>rest = [], ok = False\<rparr>, w)
      | Some c \<Rightarrow> (\<lparr>rest = c, ok = True\<rparr>, w))"

text \<open>
  The characters of one line: extraction stops at the end of the input or behind the
  first line terminator, which is extracted and dropped.
\<close>

fun getline_chars :: "string \<Rightarrow> string \<times> string" where
  "getline_chars [] = ([], [])"
| "getline_chars (c # cs) =
     (if c = nl then ([], cs)
      else (case getline_chars cs of (l, r) \<Rightarrow> (c # l, r)))"

text \<open>
  \<^verbatim>\<open>getline(infile, line)\<close>: on a failed stream, or when no character can be extracted,
  the stream fails and the line is empty.
\<close>

definition getline :: "ifstream \<Rightarrow> string \<times> ifstream" where
  "getline s =
     (if \<not> ok s \<or> rest s = [] then ([], s\<lparr>ok := False\<rparr>)
      else (case getline_chars (rest s) of (l, r) \<Rightarrow> (l, s\<lparr>rest := r\<rparr>)))"

section \<open>The loggers\<close>

subsection \<open>\<^verbatim>\<open>InMemoryLogger\<close>\<close>

record InMemoryLogger =
  messages :: "string list"

definition InMemoryLogger_ctor :: InMemoryLogger where
  "InMemoryLogger_ctor = \<lparr>messages = []\<rparr>"

definition InMemoryLogger_Log :: "string \<Rightarrow> InMemoryLogger \<Rightarrow> InMemoryLogger" where
  "InMemoryLogger_Log mesg l = l\<lparr>messages := messages l @ [mesg]\<rparr>"

definition InMemoryLogger_Messages :: "InMemoryLogger \<Rightarrow> string list \<times> InMemoryLogger" where
  "InMemoryLogger_Messages l = (messages l, l)"

subsection \<open>\<^verbatim>\<open>LocalLogger\<close>\<close>

record LocalLogger =
  filename :: string
  outfile :: fstream

text \<open>
  The constructor either returns the logger or ends the process: \<open>Inl (status, w)\<close> is
  \<^verbatim>\<open>exit(status)\<close> in the world \<open>w\<close>.
\<close>

definition LocalLogger_ctor :: "string \<Rightarrow> world \<Rightarrow> (int \<times> world) + (LocalLogger \<times> world)" where
  "LocalLogger_ctor file w =
     (case fstream_open file fstream_init w of (out, w1) \<Rightarrow>
        if \<not> is_open out then
          Inl (1, w1\<lparr>cerr := cerr w1 @ ''Failed to open file: '' @ file @ [nl]\<rparr>)
        else Inr (\<lparr>filename = file, outfile = out\<rparr>, w1))"

definition LocalLogger_Log :: "string \<Rightarrow> LocalLogger \<Rightarrow> world \<Rightarrow> LocalLogger \<times> world" where
  "LocalLogger_Log mesg l w =
     (case fstream_flush (fstream_put [nl] (fstream_put mesg (outfile l))) w of
        (out, w1) \<Rightarrow> (l\<lparr>outfile := out\<rparr>, w1))"

text \<open>The loop \<^verbatim>\<open>for (string line; getline(infile, line); ) messages.push_back(line);\<close>\<close>

function Messages_loop :: "ifstream \<Rightarrow> string list \<Rightarrow> string list" where
  "Messages_loop infile msgs =
     (case getline infile of (line, infile') \<Rightarrow>
        if ok infile' then Messages_loop infile' (msgs @ [line]) else msgs)"
  by pat_completeness auto
termination
proof (relation "measure (\<lambda>(s, m). length (rest s))")
  show "wf (measure (\<lambda>(s, m). length (rest s)))"
    by simp
next
  fix infile :: ifstream and msgs :: "string list" and x y
  assume g: "(x, y) = getline infile" and y: "ok y"
  have len: "length (snd (getline_chars s)) \<le> length s" for s
    by (induction s) (auto split: prod.splits)
  from g y have ne: "ok infile" "rest infile \<noteq> []"
    by (auto simp: getline_def split: if_splits)
  then obtain c cs where cs: "rest infile = c # cs"
    by (cases "rest infile") auto
  from g ne have "rest y = snd (getline_chars (rest infile))"
    by (auto simp: getline_def split: prod.splits)
  with cs len [of cs] have "length (rest y) < length (rest infile)"
    by (auto split: prod.splits)
  then show "((y, msgs @ [x]), (infile, msgs)) \<in> measure (\<lambda>(s, m). length (rest s))"
    by simp
qed

declare Messages_loop.simps [simp del]

definition LocalLogger_Messages :: "LocalLogger \<Rightarrow> world \<Rightarrow> string list \<times> LocalLogger \<times> world" where
  "LocalLogger_Messages l w =
     (case ifstream_open (filename l) w of (infile, w1) \<Rightarrow>
        (Messages_loop infile [], l, w1))"

definition LocalLogger_dtor :: "LocalLogger \<Rightarrow> world \<Rightarrow> world" where
  "LocalLogger_dtor l w = snd (fstream_close (outfile l) w)"

subsection \<open>\<^verbatim>\<open>LoggerInterface\<close> and virtual dispatch\<close>

datatype LoggerInterface = InMemory InMemoryLogger | Local LocalLogger

fun Log :: "string \<Rightarrow> LoggerInterface \<Rightarrow> world \<Rightarrow> LoggerInterface \<times> world" where
  "Log mesg (InMemory l) w = (InMemory (InMemoryLogger_Log mesg l), w)"
| "Log mesg (Local l) w =
     (case LocalLogger_Log mesg l w of (l1, w1) \<Rightarrow> (Local l1, w1))"

fun Messages :: "LoggerInterface \<Rightarrow> world \<Rightarrow> string list \<times> LoggerInterface \<times> world" where
  "Messages (InMemory l) w =
     (case InMemoryLogger_Messages l of (ms, l1) \<Rightarrow> (ms, InMemory l1, w))"
| "Messages (Local l) w =
     (case LocalLogger_Messages l w of (ms, l1, w1) \<Rightarrow> (ms, Local l1, w1))"

fun dtor :: "LoggerInterface \<Rightarrow> world \<Rightarrow> world" where
  "dtor (InMemory l) w = w"
| "dtor (Local l) w = LocalLogger_dtor l w"

section \<open>The harness\<close>

definition default_filename :: string where
  "default_filename = ''/tmp/outfile_cpp.txt''"

definition testMessages :: "string list" where
  "testMessages = [''Hello, World!'', ''abracadabra'', ''Sayonara!'']"

text \<open>\<^verbatim>\<open>operator<<(ostream&, vector<string> const&)\<close>: every string, each followed by a newline.\<close>

fun emit :: "string list \<Rightarrow> string" where
  "emit [] = []"
| "emit (s # vs) = s @ [nl] @ emit vs"

text \<open>The inner loop \<^verbatim>\<open>for (auto& logger : loggers) logger->Log(mesg);\<close>\<close>

fun log_to_all :: "string \<Rightarrow> LoggerInterface list \<Rightarrow> world \<Rightarrow> LoggerInterface list \<times> world" where
  "log_to_all mesg [] w = ([], w)"
| "log_to_all mesg (logger # loggers) w =
     (case Log mesg logger w of (logger', w1) \<Rightarrow>
        case log_to_all mesg loggers w1 of (loggers', w2) \<Rightarrow> (logger' # loggers', w2))"

text \<open>The outer loop \<^verbatim>\<open>for (auto const& mesg : testMessages)\<close>\<close>

fun log_messages :: "string list \<Rightarrow> LoggerInterface list \<Rightarrow> world \<Rightarrow> LoggerInterface list \<times> world" where
  "log_messages [] loggers w = (loggers, w)"
| "log_messages (mesg # msgs) loggers w =
     (case log_to_all mesg loggers w of (loggers', w1) \<Rightarrow> log_messages msgs loggers' w1)"

text \<open>
  The verification loop: the first logger whose messages differ from the expected ones
  ends the process with \<^verbatim>\<open>exit(1)\<close>.
\<close>

fun verify :: "LoggerInterface list \<Rightarrow> string list \<Rightarrow> world \<Rightarrow> (int \<times> world) + (LoggerInterface list \<times> world)" where
  "verify [] expected w = Inr ([], w)"
| "verify (logger # loggers) expected w =
     (case Messages logger w of (observedMessages, logger', w1) \<Rightarrow>
        if observedMessages \<noteq> expected then
          Inl (1, w1\<lparr>cerr := cerr w1 @ ''expected: '' @ emit expected
                       @ ''; but observed: '' @ emit observedMessages @ [nl]\<rparr>)
        else (case verify loggers expected w1 of
                Inl e \<Rightarrow> Inl e
              | Inr (loggers', w2) \<Rightarrow> Inr (logger' # loggers', w2)))"

text \<open>Leaving \<^verbatim>\<open>main\<close> destroys the vector and with it every logger.\<close>

fun destroy :: "LoggerInterface list \<Rightarrow> world \<Rightarrow> world" where
  "destroy [] w = w"
| "destroy (logger # loggers) w = destroy loggers (dtor logger w)"

text \<open>Lines 109 to 117 of \<^verbatim>\<open>main\<close>: the verification loop and the return from \<^verbatim>\<open>main\<close>.\<close>

definition main_verify :: "LoggerInterface list \<Rightarrow> string list \<Rightarrow> world \<Rightarrow> int \<times> world" where
  "main_verify loggers expected w =
     (case verify loggers expected w of
        Inl e \<Rightarrow> e
      | Inr (loggers', w1) \<Rightarrow> (0, destroy loggers' w1))"

text \<open>\<^verbatim>\<open>main\<close>, with \<open>argv\<close> the argument vector (\<open>argc\<close> is its length).\<close>

definition main :: "string list \<Rightarrow> world \<Rightarrow> int \<times> world" where
  "main argv w =
     (let file = (if length argv > 1 then argv ! 1 else default_filename) in
      case LocalLogger_ctor file w of
        Inl e \<Rightarrow> e
      | Inr (l, w1) \<Rightarrow>
          (case log_messages testMessages [InMemory InMemoryLogger_ctor, Local l] w1 of
             (loggers, w2) \<Rightarrow> main_verify loggers testMessages w2))"

section \<open>Notions used to state the properties\<close>

text \<open>Appending a sequence of messages to one sink, in order.\<close>

fun Log_seq :: "string list \<Rightarrow> LoggerInterface \<Rightarrow> world \<Rightarrow> LoggerInterface \<times> world" where
  "Log_seq [] sink w = (sink, w)"
| "Log_seq (m # ms) sink w = (case Log m sink w of (sink', w1) \<Rightarrow> Log_seq ms sink' w1)"

text \<open>What \<^verbatim>\<open>Messages\<close> returns after such a sequence of appends.\<close>

definition read_back :: "string list \<Rightarrow> LoggerInterface \<Rightarrow> world \<Rightarrow> string list" where
  "read_back ms sink w = (case Log_seq ms sink w of (sink', w1) \<Rightarrow> fst (Messages sink' w1))"

text \<open>
  A text cut at every line terminator: the pieces between the terminators, one more
  than there are terminators.
\<close>

fun split_nl :: "string \<Rightarrow> string list" where
  "split_nl [] = [[]]"
| "split_nl (c # cs) =
     (if c = nl then [] # split_nl cs
      else (c # hd (split_nl cs)) # tl (split_nl cs))"

text \<open>The pieces put together again, with a line terminator between neighbours.\<close>

fun join_nl :: "string list \<Rightarrow> string" where
  "join_nl [] = []"
| "join_nl [p] = p"
| "join_nl (p # q # ps) = p @ nl # join_nl (q # ps)"

text \<open>One append: the message goes to the sink at position \<open>j\<close> of the collection.\<close>

definition log_at :: "string \<Rightarrow> nat \<Rightarrow> LoggerInterface list \<times> world \<Rightarrow> LoggerInterface list \<times> world" where
  "log_at mesg j st =
     (case st of (loggers, w) \<Rightarrow>
        case Log mesg (loggers ! j) w of (s, w1) \<Rightarrow> (loggers[j := s], w1))"

text \<open>
  The pairs (index of the message, index of the sink) with the messages outside and the
  sinks inside.
\<close>

definition schedule :: "nat \<Rightarrow> nat \<Rightarrow> (nat \<times> nat) list" where
  "schedule m n = List.product [0..<m] [0..<n]"

text \<open>
  The order on such pairs in which all of message \<open>i\<close> comes before any of message
  \<open>i + 1\<close>, and for one message the sinks come in the order of the collection.
\<close>

definition earlier :: "nat \<times> nat \<Rightarrow> nat \<times> nat \<Rightarrow> bool" where
  "earlier a b = (fst a < fst b \<or> (fst a = fst b \<and> snd a < snd b))"

text \<open>The sink holds a write handle that is attached to the path \<open>p\<close>.\<close>

fun writes_to :: "string \<Rightarrow> LoggerInterface \<Rightarrow> bool" where
  "writes_to p (InMemory l) = False"
| "writes_to p (Local l) = (path (outfile l) = p)"

text \<open>
  A world for the examples: no file yet, and a directory that does not exist.
\<close>

definition world0 :: world where
  "world0 = \<lparr>files = Map.empty, unwritable = {''/nonexistent_dir/x.txt''}, cerr = [], cout = []\<rparr>"

section \<open>The reading loop\<close>

lemma Messages_loop_unfold_ok:
  "getline s = (line, s') \<Longrightarrow> ok s' \<Longrightarrow> Messages_loop s acc = Messages_loop s' (acc @ [line])"
  by (subst Messages_loop.simps) simp

lemma Messages_loop_unfold_fail:
  "\<not> ok (snd (getline s)) \<Longrightarrow> Messages_loop s acc = acc"
  by (subst Messages_loop.simps) (auto split: prod.splits)

lemma Messages_loop_prefix: "Messages_loop s (pre @ acc) = pre @ Messages_loop s acc"
proof (induction s acc arbitrary: pre rule: Messages_loop.induct)
  case (1 infile msgs)
  obtain line infile' where g: "getline infile = (line, infile')"
    by (cases "getline infile")
  show ?case
  proof (cases "ok infile'")
    case True
    have "Messages_loop infile (pre @ msgs) = Messages_loop infile' (pre @ msgs @ [line])"
      using Messages_loop_unfold_ok [OF g True, of "pre @ msgs"] by simp
    also have "\<dots> = pre @ Messages_loop infile' (msgs @ [line])"
      using "1.IH" [OF g [symmetric] True] .
    also have "\<dots> = pre @ Messages_loop infile msgs"
      using Messages_loop_unfold_ok [OF g True, of msgs] by simp
    finally show ?thesis .
  next
    case False
    with g have "\<not> ok (snd (getline infile))" by simp
    then show ?thesis
      by (simp add: Messages_loop_unfold_fail)
  qed
qed

lemma read_Nil: "Messages_loop \<lparr>rest = [], ok = True\<rparr> acc = acc"
  by (rule Messages_loop_unfold_fail) (simp add: getline_def)

lemma read_failed: "\<not> ok s \<Longrightarrow> Messages_loop s acc = acc"
  by (rule Messages_loop_unfold_fail) (simp add: getline_def)

lemma read_Cons:
  "Messages_loop \<lparr>rest = c # cs, ok = True\<rparr> acc =
     Messages_loop \<lparr>rest = snd (getline_chars (c # cs)), ok = True\<rparr> (acc @ [fst (getline_chars (c # cs))])"
  by (rule Messages_loop_unfold_ok) (auto simp: getline_def split: prod.splits)

lemma read_nl:
  "Messages_loop \<lparr>rest = nl # cs, ok = True\<rparr> [] = [] # Messages_loop \<lparr>rest = cs, ok = True\<rparr> []"
  using read_Cons [of nl cs "[]"] Messages_loop_prefix [of _ "[[]]" "[]"] by simp

lemma read_char:
  assumes "c \<noteq> nl" and "cs \<noteq> []"
  shows "Messages_loop \<lparr>rest = c # cs, ok = True\<rparr> [] =
           (c # hd (Messages_loop \<lparr>rest = cs, ok = True\<rparr> []))
             # tl (Messages_loop \<lparr>rest = cs, ok = True\<rparr> [])"
proof -
  obtain d ds where cs: "cs = d # ds" using assms(2) by (cases cs) auto
  obtain l r where g: "getline_chars cs = (l, r)" by (cases "getline_chars cs")
  have "Messages_loop \<lparr>rest = cs, ok = True\<rparr> [] = Messages_loop \<lparr>rest = r, ok = True\<rparr> [l]"
    using read_Cons [of d ds "[]"] g cs by simp
  then have a: "Messages_loop \<lparr>rest = cs, ok = True\<rparr> [] = l # Messages_loop \<lparr>rest = r, ok = True\<rparr> []"
    using Messages_loop_prefix [of _ "[l]" "[]"] by simp
  have "Messages_loop \<lparr>rest = c # cs, ok = True\<rparr> [] = Messages_loop \<lparr>rest = r, ok = True\<rparr> [c # l]"
    using read_Cons [of c cs "[]"] g assms(1) by simp
  then have b: "Messages_loop \<lparr>rest = c # cs, ok = True\<rparr> [] = (c # l) # Messages_loop \<lparr>rest = r, ok = True\<rparr> []"
    using Messages_loop_prefix [of _ "[c # l]" "[]"] by simp
  show ?thesis using a b by simp
qed

lemma split_nl_nonempty: "split_nl m \<noteq> []"
  by (cases m) auto

lemma read_line:
  "Messages_loop \<lparr>rest = m @ nl # r, ok = True\<rparr> [] =
     split_nl m @ Messages_loop \<lparr>rest = r, ok = True\<rparr> []"
proof (induction m)
  case Nil
  show ?case by (simp add: read_nl)
next
  case (Cons c cs)
  show ?case
  proof (cases "c = nl")
    case True
    then show ?thesis using Cons by (simp add: read_nl)
  next
    case False
    have "Messages_loop \<lparr>rest = c # (cs @ nl # r), ok = True\<rparr> [] =
            (c # hd (split_nl cs @ Messages_loop \<lparr>rest = r, ok = True\<rparr> []))
              # tl (split_nl cs @ Messages_loop \<lparr>rest = r, ok = True\<rparr> [])"
      using read_char [OF False, of "cs @ nl # r"] Cons by simp
    then show ?thesis
      using False split_nl_nonempty [of cs] by simp
  qed
qed

lemma read_emit:
  "Messages_loop \<lparr>rest = emit ms, ok = True\<rparr> [] = concat (map split_nl ms)"
proof (induction ms)
  case Nil
  show ?case by (simp add: read_Nil)
next
  case (Cons m ms)
  then show ?case
    using read_line [of m "emit ms"] by simp
qed

lemma split_nl_plain: "nl \<notin> set m \<Longrightarrow> split_nl m = [m]"
  by (induction m) auto

lemma concat_split_nl_plain: "\<forall>m\<in>set ms. nl \<notin> set m \<Longrightarrow> concat (map split_nl ms) = ms"
  by (induction ms) (auto simp: split_nl_plain)


section \<open>Facts about the loggers\<close>

lemma LocalLogger_ctor_ok:
  "file \<notin> unwritable w \<Longrightarrow>
   LocalLogger_ctor file w =
     Inr (\<lparr>filename = file, outfile = \<lparr>is_open = True, path = file, pending = []\<rparr>\<rparr>,
          w\<lparr>files := (files w)(file \<mapsto> [])\<rparr>)"
  by (simp add: LocalLogger_ctor_def fstream_open_def fstream_init_def)

lemma LocalLogger_ctor_fail:
  "file \<in> unwritable w \<Longrightarrow>
   LocalLogger_ctor file w =
     Inl (1, w\<lparr>cerr := cerr w @ ''Failed to open file: '' @ file @ [nl]\<rparr>)"
  by (simp add: LocalLogger_ctor_def fstream_open_def fstream_init_def)

lemma LocalLogger_ctor_Inr:
  assumes "LocalLogger_ctor file w = Inr (l, w1)"
  shows "file \<notin> unwritable w"
    and "l = \<lparr>filename = file, outfile = \<lparr>is_open = True, path = file, pending = []\<rparr>\<rparr>"
    and "w1 = w\<lparr>files := (files w)(file \<mapsto> [])\<rparr>"
proof -
  show a: "file \<notin> unwritable w"
    using assms LocalLogger_ctor_fail [of "file" w] by auto
  show "l = \<lparr>filename = file, outfile = \<lparr>is_open = True, path = file, pending = []\<rparr>\<rparr>"
    using assms LocalLogger_ctor_ok [OF a] by simp
  show "w1 = w\<lparr>files := (files w)(file \<mapsto> [])\<rparr>"
    using assms LocalLogger_ctor_ok [OF a] by simp
qed

lemma LocalLogger_Log_open:
  assumes "is_open (outfile l)" and "files w (path (outfile l)) = Some c"
  shows "LocalLogger_Log m l w =
           (l\<lparr>outfile := (outfile l)\<lparr>pending := []\<rparr>\<rparr>,
            w\<lparr>files := (files w)(path (outfile l) \<mapsto> c @ pending (outfile l) @ m @ [nl])\<rparr>)"
  using assms by (simp add: LocalLogger_Log_def fstream_flush_def fstream_put_def)

lemma Log_seq_Local:
  assumes "is_open (outfile l)" and "pending (outfile l) = []"
    and "files w (path (outfile l)) = Some c"
  shows "Log_seq ms (Local l) w =
           (Local l, w\<lparr>files := (files w)(path (outfile l) \<mapsto> c @ emit ms)\<rparr>)"
  using assms
proof (induction ms arbitrary: w c)
  case Nil
  then have "(files w)(path (outfile l) \<mapsto> c) = files w"
    by (simp add: map_upd_triv)
  then show ?case by simp
next
  case (Cons m ms)
  let ?w1 = "w\<lparr>files := (files w)(path (outfile l) \<mapsto> c @ m @ [nl])\<rparr>"
  have same: "l\<lparr>outfile := (outfile l)\<lparr>pending := []\<rparr>\<rparr> = l"
    using Cons.prems(2) by simp
  have step: "LocalLogger_Log m l w = (l, ?w1)"
    using LocalLogger_Log_open [OF Cons.prems(1) Cons.prems(3), of m] Cons.prems(2) same by simp
  have "files ?w1 (path (outfile l)) = Some (c @ m @ [nl])"
    by simp
  from Cons.IH [OF Cons.prems(1) Cons.prems(2) this]
  have ih: "Log_seq ms (Local l) ?w1 =
      (Local l, ?w1\<lparr>files := (files ?w1)(path (outfile l) \<mapsto> (c @ m @ [nl]) @ emit ms)\<rparr>)" .
  have e: "?w1\<lparr>files := (files ?w1)(path (outfile l) \<mapsto> (c @ m @ [nl]) @ emit ms)\<rparr> =
      w\<lparr>files := (files w)(path (outfile l) \<mapsto> c @ emit (m # ms))\<rparr>"
    by simp
  have "Log_seq (m # ms) (Local l) w = Log_seq ms (Local l) ?w1"
    by (simp add: step)
  with ih e show ?case by (simp only:)
qed

lemma Log_seq_InMemory:
  "Log_seq ms (InMemory l) w = (InMemory (l\<lparr>messages := messages l @ ms\<rparr>), w)"
  by (induction ms arbitrary: l) (auto simp: InMemoryLogger_Log_def)

lemma Messages_Local_file:
  "files w (filename l) = Some c \<Longrightarrow>
   Messages (Local l) w = (Messages_loop \<lparr>rest = c, ok = True\<rparr> [], Local l, w)"
  by (simp add: LocalLogger_Messages_def ifstream_open_def)

lemma Messages_Local_missing:
  "files w (filename l) = None \<Longrightarrow> Messages (Local l) w = ([], Local l, w)"
  by (simp add: LocalLogger_Messages_def ifstream_open_def read_failed)

lemma Messages_InMemory: "Messages (InMemory l) w = (messages l, InMemory l, w)"
  by (simp add: InMemoryLogger_Messages_def)

lemma Messages_frame: "snd (Messages sink w) = (sink, w)"
proof (cases sink)
  case (InMemory l)
  then show ?thesis by (simp add: InMemoryLogger_Messages_def)
next
  case (Local l)
  then show ?thesis
    by (simp add: LocalLogger_Messages_def ifstream_open_def split: option.splits)
qed

lemma read_back_fresh_Local:
  assumes "LocalLogger_ctor file w = Inr (l, w1)"
  shows "read_back ms (Local l) w1 = concat (map split_nl ms)"
proof -
  note c = LocalLogger_ctor_Inr [OF assms]
  have o: "is_open (outfile l)" and p: "pending (outfile l) = []"
    and q: "path (outfile l) = file" and f: "filename l = file"
    using c(2) by simp_all
  have "files w1 (path (outfile l)) = Some []"
    using c(3) q by simp
  from Log_seq_Local [OF o p this, of ms]
  have ls: "Log_seq ms (Local l) w1 = (Local l, w1\<lparr>files := (files w1)(file \<mapsto> emit ms)\<rparr>)"
    using q by simp
  have "files (w1\<lparr>files := (files w1)(file \<mapsto> emit ms)\<rparr>) (filename l) = Some (emit ms)"
    using f by simp
  from Messages_Local_file [OF this] ls
  show ?thesis
    by (simp add: read_back_def read_emit)
qed

section \<open>Splitting at line terminators\<close>

lemma split_nl_length: "length (split_nl m) = Suc (count_list m nl)"
  by (induction m) auto

lemma split_nl_pieces: "p \<in> set (split_nl m) \<Longrightarrow> nl \<notin> set p"
proof (induction m arbitrary: p)
  case Nil
  then show ?case by simp
next
  case (Cons c cs)
  have ne: "split_nl cs \<noteq> []" by (rule split_nl_nonempty)
  then have h: "hd (split_nl cs) \<in> set (split_nl cs)" by simp
  have t: "set (tl (split_nl cs)) \<subseteq> set (split_nl cs)"
    using ne by (cases "split_nl cs") auto
  show ?case
  proof (cases "c = nl")
    case True
    with Cons show ?thesis by auto
  next
    case False
    with Cons.prems have "p = c # hd (split_nl cs) \<or> p \<in> set (tl (split_nl cs))"
      by simp
    then show ?thesis
      using False h t Cons.IH by auto
  qed
qed

lemma split_nl_join: "join_nl (split_nl m) = m"
proof (induction m)
  case Nil
  show ?case by simp
next
  case (Cons c cs)
  obtain p ps where s: "split_nl cs = p # ps"
    using split_nl_nonempty [of cs] by (cases "split_nl cs") auto
  show ?case
  proof (cases "c = nl")
    case True
    then show ?thesis using Cons s by simp
  next
    case False
    then show ?thesis using Cons s by (cases ps) auto
  qed
qed

lemma length_concat_split_nl: "length ms \<le> length (concat (map split_nl ms))"
  by (induction ms) (auto simp: split_nl_length)

lemma length_concat_split_nl_strict:
  "\<exists>m\<in>set ms. nl \<in> set m \<Longrightarrow> length ms < length (concat (map split_nl ms))"
proof (induction ms)
  case Nil
  then show ?case by simp
next
  case (Cons m ms)
  have le: "length ms \<le> length (concat (map split_nl ms))"
    by (rule length_concat_split_nl)
  show ?case
  proof (cases "nl \<in> set m")
    case True
    then have "0 < count_list m nl"
      using count_list_0_iff [of m nl] by auto
    then show ?thesis using le by (simp add: split_nl_length)
  next
    case False
    with Cons.prems have "\<exists>m\<in>set ms. nl \<in> set m" by simp
    from Cons.IH [OF this] show ?thesis by (simp add: split_nl_length)
  qed
qed

lemma ctor_default_world0:
  "LocalLogger_ctor default_filename world0 =
     Inr (\<lparr>filename = default_filename,
           outfile = \<lparr>is_open = True, path = default_filename, pending = []\<rparr>\<rparr>,
          world0\<lparr>files := [default_filename \<mapsto> []]\<rparr>)"
  by (simp add: LocalLogger_ctor_def fstream_open_def fstream_init_def world0_def
        default_filename_def)

section \<open>Construction and reading\<close>

lemma LocalLogger_Messages_frame: "snd (LocalLogger_Messages l w) = (l, w)"
  by (simp add: LocalLogger_Messages_def ifstream_open_def split: option.splits)

lemma ctor_succeeds_iff:
  "(\<exists>l w1. LocalLogger_ctor file w = Inr (l, w1)) = (file \<notin> unwritable w)"
  using LocalLogger_ctor_ok [of "file" w] LocalLogger_ctor_fail [of "file" w]
  by (cases "file \<in> unwritable w") auto

lemma read_two_lines:
  "Messages_loop \<lparr>rest = ''a'' @ [nl] @ ''b'' @ [nl], ok = True\<rparr> [] = [''a'', ''b'']"
  using read_emit [of "[''a'', ''b'']"] by simp

section \<open>The two loops of the harness\<close>

lemma log_to_all_from:
  "fold (log_at mesg) [length pre..<length pre + length suf] (pre @ suf, w) =
     (pre @ fst (log_to_all mesg suf w), snd (log_to_all mesg suf w))"
proof (induction suf arbitrary: pre w)
  case Nil
  show ?case by simp
next
  case (Cons s suf)
  obtain s' w1 where l: "Log mesg s w = (s', w1)"
    by (cases "Log mesg s w")
  have u: "[length pre..<length pre + length (s # suf)] =
      length pre # [length (pre @ [s'])..<length (pre @ [s']) + length suf]"
    using upt_conv_Cons [of "length pre" "length pre + length (s # suf)"] by simp
  have st: "log_at mesg (length pre) (pre @ s # suf, w) = ((pre @ [s']) @ suf, w1)"
    using l by (simp add: log_at_def)
  have "fold (log_at mesg) [length pre..<length pre + length (s # suf)] (pre @ s # suf, w) =
      fold (log_at mesg) [length (pre @ [s'])..<length (pre @ [s']) + length suf] ((pre @ [s']) @ suf, w1)"
    by (simp only: u fold_simps st)
  also have "\<dots> = ((pre @ [s']) @ fst (log_to_all mesg suf w1), snd (log_to_all mesg suf w1))"
    by (rule Cons.IH)
  also have "\<dots> = (pre @ fst (log_to_all mesg (s # suf) w), snd (log_to_all mesg (s # suf) w))"
    using l by (simp split: prod.splits)
  finally show ?case .
qed

lemma log_to_all_fold:
  "log_to_all mesg loggers w = fold (log_at mesg) [0..<length loggers] (loggers, w)"
  using log_to_all_from [of mesg "[]" loggers w] by simp

lemma log_to_all_length: "length (fst (log_to_all mesg loggers w)) = length loggers"
proof (induction loggers arbitrary: w)
  case Nil
  show ?case by simp
next
  case (Cons s loggers)
  obtain s' w1 where l: "Log mesg s w = (s', w1)"
    by (cases "Log mesg s w")
  obtain ls w2 where r: "log_to_all mesg loggers w1 = (ls, w2)"
    by (cases "log_to_all mesg loggers w1")
  have "length ls = length loggers"
    using Cons [of w1] r by simp
  then show ?case
    using l r by simp
qed

lemma log_messages_fold:
  "log_messages msgs loggers w =
     fold (\<lambda>(m, j). log_at m j) (List.product msgs [0..<length loggers]) (loggers, w)"
proof (induction msgs arbitrary: loggers w)
  case Nil
  show ?case by simp
next
  case (Cons m msgs)
  obtain loggers' w1 where l: "log_to_all m loggers w = (loggers', w1)"
    by (cases "log_to_all m loggers w")
  have n: "length loggers' = length loggers"
    using log_to_all_length [of m loggers w] l by simp
  have f: "fold (\<lambda>(m, j). log_at m j) (map (Pair m) [0..<length loggers]) (loggers, w) = (loggers', w1)"
    using log_to_all_fold [of m loggers w] l by (simp add: fold_map comp_def)
  have "log_messages (m # msgs) loggers w = log_messages msgs loggers' w1"
    using l by simp
  also have "\<dots> = fold (\<lambda>(m, j). log_at m j) (List.product msgs [0..<length loggers]) (loggers', w1)"
    using Cons.IH [of loggers' w1] n by simp
  also have "\<dots> = fold (\<lambda>(m, j). log_at m j) (List.product (m # msgs) [0..<length loggers]) (loggers, w)"
    using f by simp
  finally show ?case .
qed

lemma product_map_fst:
  "List.product (map f xs) ys = map (\<lambda>(x, y). (f x, y)) (List.product xs ys)"
  by (induction xs) auto

lemma log_messages_schedule:
  "log_messages msgs loggers w =
     fold (\<lambda>(i, j). log_at (msgs ! i) j) (schedule (length msgs) (length loggers)) (loggers, w)"
proof -
  have "List.product msgs [0..<length loggers] =
      List.product (map ((!) msgs) [0..<length msgs]) [0..<length loggers]"
    by (simp add: map_nth)
  also have "\<dots> = map (\<lambda>(i, j). (msgs ! i, j)) (schedule (length msgs) (length loggers))"
    by (simp add: product_map_fst schedule_def)
  finally have p: "List.product msgs [0..<length loggers] =
      map (\<lambda>(i, j). (msgs ! i, j)) (schedule (length msgs) (length loggers))" .
  have c: "(\<lambda>(m, j). log_at m j) \<circ> (\<lambda>(i, j). (msgs ! i, j)) = (\<lambda>(i, j). log_at (msgs ! i) j)"
    by (auto simp: fun_eq_iff)
  show ?thesis
    by (simp only: log_messages_fold p fold_map c)
qed

lemma product_sorted:
  assumes "sorted_wrt (<) xs" and "sorted_wrt (<) ys"
  shows "sorted_wrt earlier (List.product (xs :: nat list) (ys :: nat list))"
  using assms(1)
proof (induction xs)
  case Nil
  show ?case by simp
next
  case (Cons x xs)
  have a: "sorted_wrt earlier (map (Pair x) ys)"
    using assms(2) by (simp add: sorted_wrt_map earlier_def)
  have b: "sorted_wrt earlier (List.product xs ys)"
    using Cons by simp
  have c: "\<forall>a\<in>set (map (Pair x) ys). \<forall>b\<in>set (List.product xs ys). earlier a b"
    using Cons.prems by (auto simp: earlier_def)
  show ?case
    using a b c by (simp add: sorted_wrt_append)
qed

lemma schedule_sorted: "sorted_wrt earlier (schedule m n)"
  unfolding schedule_def by (rule product_sorted) simp_all

lemma schedule_distinct: "distinct (schedule m n)"
  by (simp add: schedule_def distinct_product)

lemma schedule_set: "set (schedule m n) = {0..<m} \<times> {0..<n}"
  by (simp add: schedule_def)

lemma filter_upt_eq: "j < n \<Longrightarrow> filter (\<lambda>y. y = j) [0..<n] = [j]"
  by (induction n) (auto simp: less_Suc_eq)

lemma product_project:
  assumes "filter (\<lambda>y. y = j) ys = [j]"
  shows "map fst (filter (\<lambda>e. snd e = j) (List.product xs ys)) = xs"
proof (induction xs)
  case Nil
  show ?case by simp
next
  case (Cons x xs)
  have "filter (\<lambda>e. snd e = j) (map (Pair x) ys) = map (Pair x) (filter (\<lambda>y. y = j) ys)"
    by (simp add: filter_map comp_def)
  then show ?case
    using Cons assms by simp
qed

lemma schedule_project:
  "j < n \<Longrightarrow> map fst (filter (\<lambda>e. snd e = j) (schedule m n)) = [0..<m]"
  by (simp add: schedule_def product_project filter_upt_eq)

lemma schedule_main:
  "schedule (length testMessages) (length [a, b]) = [(0, 0), (0, 1), (1, 0), (1, 1), (2, 0), (2, 1)]"
  by (simp add: schedule_def testMessages_def upt_rec)


lemma log_messages_main:
  assumes "is_open (outfile l)" and "pending (outfile l) = []"
    and "files w (path (outfile l)) = Some c"
  shows "log_messages msgs [InMemory im, Local l] w =
           ([InMemory (im\<lparr>messages := messages im @ msgs\<rparr>), Local l],
            w\<lparr>files := (files w)(path (outfile l) \<mapsto> c @ emit msgs)\<rparr>)"
  using assms(3)
proof (induction msgs arbitrary: im w c)
  case Nil
  then have "(files w)(path (outfile l) \<mapsto> c) = files w"
    by (simp add: map_upd_triv)
  then show ?case by simp
next
  case (Cons m msgs)
  let ?w1 = "w\<lparr>files := (files w)(path (outfile l) \<mapsto> c @ m @ [nl])\<rparr>"
  let ?im1 = "im\<lparr>messages := messages im @ [m]\<rparr>"
  have same: "l\<lparr>outfile := (outfile l)\<lparr>pending := []\<rparr>\<rparr> = l"
    using assms(2) by simp
  have step: "LocalLogger_Log m l w = (l, ?w1)"
    using LocalLogger_Log_open [OF assms(1) Cons.prems, of m] assms(2) same by simp
  have inner: "log_to_all m [InMemory im, Local l] w = ([InMemory ?im1, Local l], ?w1)"
    by (simp add: step InMemoryLogger_Log_def)
  have "files ?w1 (path (outfile l)) = Some (c @ m @ [nl])"
    by simp
  from Cons.IH [OF this, of ?im1]
  have ih: "log_messages msgs [InMemory ?im1, Local l] ?w1 =
      ([InMemory (?im1\<lparr>messages := messages ?im1 @ msgs\<rparr>), Local l],
       ?w1\<lparr>files := (files ?w1)(path (outfile l) \<mapsto> (c @ m @ [nl]) @ emit msgs)\<rparr>)" .
  have e: "?w1\<lparr>files := (files ?w1)(path (outfile l) \<mapsto> (c @ m @ [nl]) @ emit msgs)\<rparr> =
      w\<lparr>files := (files w)(path (outfile l) \<mapsto> c @ emit (m # msgs))\<rparr>"
    by simp
  have i: "?im1\<lparr>messages := messages ?im1 @ msgs\<rparr> = im\<lparr>messages := messages im @ m # msgs\<rparr>"
    by simp
  have "log_messages (m # msgs) [InMemory im, Local l] w =
      log_messages msgs [InMemory ?im1, Local l] ?w1"
    by (simp only: log_messages.simps inner prod.case)
  with ih e i show ?case by (simp only:)
qed

section \<open>What the loops leave in each sink\<close>

lemma Log_other_file: "\<not> writes_to p s \<Longrightarrow> files (snd (Log m s w)) p = files w p"
proof (cases s)
  case (InMemory l)
  then show ?thesis by simp
next
  case (Local l)
  assume "\<not> writes_to p s"
  with Local have "path (outfile l) \<noteq> p" by simp
  then show ?thesis
    using Local
    by (simp add: LocalLogger_Log_def fstream_flush_def fstream_put_def split: option.splits)
qed

lemma Log_writes_to: "writes_to p (fst (Log m s w)) = writes_to p s"
proof (cases s)
  case (InMemory l)
  then show ?thesis by simp
next
  case (Local l)
  then show ?thesis
    by (simp add: LocalLogger_Log_def fstream_flush_def fstream_put_def split: option.splits)
qed

lemma log_to_all_others:
  "\<forall>s\<in>set ls. \<not> writes_to p s \<Longrightarrow>
   files (snd (log_to_all m ls w)) p = files w p \<and>
   (\<forall>s\<in>set (fst (log_to_all m ls w)). \<not> writes_to p s)"
proof (induction ls arbitrary: w)
  case Nil
  show ?case by simp
next
  case (Cons x xs)
  obtain x' w1 where l: "Log m x w = (x', w1)"
    by (cases "Log m x w")
  obtain xs' w2 where r: "log_to_all m xs w1 = (xs', w2)"
    by (cases "log_to_all m xs w1")
  have nx: "\<not> writes_to p x" and nxs: "\<forall>s\<in>set xs. \<not> writes_to p s"
    using Cons.prems by simp_all
  have f1: "files w1 p = files w p"
    using Log_other_file [OF nx, of m w] l by simp
  have n1: "\<not> writes_to p x'"
    using Log_writes_to [of p m x w] l nx by simp
  have ih: "files w2 p = files w1 p \<and> (\<forall>s\<in>set xs'. \<not> writes_to p s)"
    using Cons.IH [OF nxs, of w1] r by simp
  show ?case
    using l r f1 n1 ih by simp
qed

lemma log_to_all_InMemory:
  "j < length ls \<Longrightarrow> ls ! j = InMemory im \<Longrightarrow>
   fst (log_to_all m ls w) ! j = InMemory (InMemoryLogger_Log m im)"
proof (induction ls arbitrary: j w)
  case Nil
  then show ?case by simp
next
  case (Cons x xs)
  obtain x' w1 where l: "Log m x w = (x', w1)"
    by (cases "Log m x w")
  obtain xs' w2 where r: "log_to_all m xs w1 = (xs', w2)"
    by (cases "log_to_all m xs w1")
  show ?case
  proof (cases j)
    case 0
    with Cons.prems have "x = InMemory im" by simp
    with l have "x' = InMemory (InMemoryLogger_Log m im)" by auto
    with 0 l r show ?thesis by simp
  next
    case (Suc k)
    with Cons.prems have "k < length xs" "xs ! k = InMemory im" by simp_all
    from Cons.IH [OF this, of w1] r have "xs' ! k = InMemory (InMemoryLogger_Log m im)"
      by simp
    with Suc l r show ?thesis by simp
  qed
qed

lemma log_messages_InMemory:
  "j < length ls \<Longrightarrow> ls ! j = InMemory im \<Longrightarrow>
   fst (log_messages msgs ls w) ! j = InMemory (im\<lparr>messages := messages im @ msgs\<rparr>)"
proof (induction msgs arbitrary: ls w im)
  case Nil
  then show ?case by simp
next
  case (Cons m msgs)
  obtain ls' w1 where l: "log_to_all m ls w = (ls', w1)"
    by (cases "log_to_all m ls w")
  have n: "j < length ls'"
    using log_to_all_length [of m ls w] l Cons.prems(1) by simp
  have s: "ls' ! j = InMemory (InMemoryLogger_Log m im)"
    using log_to_all_InMemory [OF Cons.prems, of m w] l by simp
  have "fst (log_messages msgs ls' w1) ! j =
      InMemory ((InMemoryLogger_Log m im)\<lparr>messages := messages (InMemoryLogger_Log m im) @ msgs\<rparr>)"
    using n s by (rule Cons.IH)
  then show ?case
    using l by (simp add: InMemoryLogger_Log_def)
qed

lemma log_to_all_Local:
  assumes "is_open (outfile l)" and "pending (outfile l) = []"
  shows "j < length ls \<Longrightarrow> ls ! j = Local l \<Longrightarrow> files w (path (outfile l)) = Some c \<Longrightarrow>
   \<forall>s\<in>set (take j ls @ drop (Suc j) ls). \<not> writes_to (path (outfile l)) s \<Longrightarrow>
   fst (log_to_all m ls w) ! j = Local l \<and>
   files (snd (log_to_all m ls w)) (path (outfile l)) = Some (c @ m @ [nl]) \<and>
   (\<forall>s\<in>set (take j (fst (log_to_all m ls w)) @ drop (Suc j) (fst (log_to_all m ls w))).
      \<not> writes_to (path (outfile l)) s)"
proof (induction ls arbitrary: j w)
  case Nil
  then show ?case by simp
next
  case (Cons x xs)
  let ?p = "path (outfile l)"
  obtain x' w1 where lg: "Log m x w = (x', w1)"
    by (cases "Log m x w")
  obtain xs' w2 where r: "log_to_all m xs w1 = (xs', w2)"
    by (cases "log_to_all m xs w1")
  have res: "log_to_all m (x # xs) w = (x' # xs', w2)"
    using lg r by simp
  show ?case
  proof (cases j)
    case 0
    with Cons.prems(2) have x: "x = Local l" by simp
    have same: "l\<lparr>outfile := (outfile l)\<lparr>pending := []\<rparr>\<rparr> = l"
      using assms(2) by simp
    have "LocalLogger_Log m l w = (l, w\<lparr>files := (files w)(?p \<mapsto> c @ m @ [nl])\<rparr>)"
      using LocalLogger_Log_open [OF assms(1) Cons.prems(3), of m] assms(2) same by simp
    with lg x have x': "x' = Local l" and w1: "files w1 ?p = Some (c @ m @ [nl])"
      by auto
    have "\<forall>s\<in>set xs. \<not> writes_to ?p s"
      using Cons.prems(4) 0 by simp
    from log_to_all_others [OF this, of m w1] r
    have "files w2 ?p = files w1 ?p" and "\<forall>s\<in>set xs'. \<not> writes_to ?p s"
      by simp_all
    then show ?thesis
      unfolding res using 0 x' w1 by simp
  next
    case (Suc k)
    have k: "k < length xs" and xk: "xs ! k = Local l"
      using Cons.prems(1,2) Suc by simp_all
    have nx: "\<not> writes_to ?p x"
      and rest: "\<forall>s\<in>set (take k xs @ drop (Suc k) xs). \<not> writes_to ?p s"
      using Cons.prems(4) Suc by simp_all
    have f1: "files w1 ?p = Some c"
      using Log_other_file [OF nx, of m w] lg Cons.prems(3) by simp
    have n1: "\<not> writes_to ?p x'"
      using Log_writes_to [of ?p m x w] lg nx by simp
    from Cons.IH [OF k xk f1 rest] r
    have ih: "xs' ! k = Local l" "files w2 ?p = Some (c @ m @ [nl])"
      "\<forall>s\<in>set (take k xs' @ drop (Suc k) xs'). \<not> writes_to ?p s"
      by simp_all
    show ?thesis
      unfolding res using Suc n1 ih by simp
  qed
qed

lemma log_messages_Local:
  assumes "is_open (outfile l)" and "pending (outfile l) = []"
  shows "j < length ls \<Longrightarrow> ls ! j = Local l \<Longrightarrow> files w (path (outfile l)) = Some c \<Longrightarrow>
   \<forall>s\<in>set (take j ls @ drop (Suc j) ls). \<not> writes_to (path (outfile l)) s \<Longrightarrow>
   fst (log_messages msgs ls w) ! j = Local l \<and>
   files (snd (log_messages msgs ls w)) (path (outfile l)) = Some (c @ emit msgs)"
proof (induction msgs arbitrary: ls w c)
  case Nil
  then show ?case by simp
next
  case (Cons m msgs)
  obtain ls' w1 where l: "log_to_all m ls w = (ls', w1)"
    by (cases "log_to_all m ls w")
  have n: "j < length ls'"
    using log_to_all_length [of m ls w] l Cons.prems(1) by simp
  from log_to_all_Local [OF assms Cons.prems, of m] l
  have s: "ls' ! j = Local l" "files w1 (path (outfile l)) = Some (c @ m @ [nl])"
    "\<forall>s\<in>set (take j ls' @ drop (Suc j) ls'). \<not> writes_to (path (outfile l)) s"
    by simp_all
  from Cons.IH [OF n s]
  have "fst (log_messages msgs ls' w1) ! j = Local l \<and>
    files (snd (log_messages msgs ls' w1)) (path (outfile l)) = Some ((c @ m @ [nl]) @ emit msgs)" .
  then show ?case
    using l by simp
qed


lemma log_messages_length: "length (fst (log_messages msgs ls w)) = length ls"
proof (induction msgs arbitrary: ls w)
  case Nil
  show ?case by simp
next
  case (Cons m msgs)
  obtain ls' w1 where l: "log_to_all m ls w = (ls', w1)"
    by (cases "log_to_all m ls w")
  have "length ls' = length ls"
    using log_to_all_length [of m ls w] l by simp
  then show ?case
    using Cons [of ls' w1] l by simp
qed

section \<open>The verification loop and the whole run\<close>

lemma Messages_eqI: "fst (Messages s w) = ms \<Longrightarrow> Messages s w = (ms, s, w)"
  using Messages_frame [of s w] by (cases "Messages s w") simp

lemma verify_pass:
  "\<forall>s\<in>set loggers. fst (Messages s w) = expected \<Longrightarrow>
   verify loggers expected w = Inr (loggers, w)"
proof (induction loggers)
  case Nil
  show ?case by simp
next
  case (Cons s loggers)
  have "fst (Messages s w) = expected"
    using Cons.prems by simp
  then have m: "Messages s w = (expected, s, w)"
    by (rule Messages_eqI)
  have "verify loggers expected w = Inr (loggers, w)"
    using Cons by simp
  then show ?case
    by (simp add: m)
qed

lemma verify_fail:
  "\<exists>s\<in>set loggers. fst (Messages s w) \<noteq> expected \<Longrightarrow>
   \<exists>s\<in>set loggers. fst (Messages s w) \<noteq> expected \<and>
     verify loggers expected w =
       Inl (1, w\<lparr>cerr := cerr w @ ''expected: '' @ emit expected
                   @ ''; but observed: '' @ emit (fst (Messages s w)) @ [nl]\<rparr>)"
proof (induction loggers)
  case Nil
  then show ?case by simp
next
  case (Cons s loggers)
  show ?case
  proof (cases "fst (Messages s w) = expected")
    case True
    then have m: "Messages s w = (expected, s, w)"
      by (rule Messages_eqI)
    from True Cons.prems have "\<exists>s\<in>set loggers. fst (Messages s w) \<noteq> expected"
      by simp
    from Cons.IH [OF this] obtain t where t: "t \<in> set loggers"
      "fst (Messages t w) \<noteq> expected"
      "verify loggers expected w =
         Inl (1, w\<lparr>cerr := cerr w @ ''expected: '' @ emit expected
                   @ ''; but observed: '' @ emit (fst (Messages t w)) @ [nl]\<rparr>)"
      by blast
    have "verify (s # loggers) expected w =
         Inl (1, w\<lparr>cerr := cerr w @ ''expected: '' @ emit expected
                   @ ''; but observed: '' @ emit (fst (Messages t w)) @ [nl]\<rparr>)"
      by (simp add: m t(3))
    with t(2) have "fst (Messages t w) \<noteq> expected \<and> verify (s # loggers) expected w =
         Inl (1, w\<lparr>cerr := cerr w @ ''expected: '' @ emit expected
                   @ ''; but observed: '' @ emit (fst (Messages t w)) @ [nl]\<rparr>)"
      by (rule conjI)
    then show ?thesis
      using t(1) by (intro bexI [of _ t]) simp_all
  next
    case False
    obtain obs where o: "fst (Messages s w) = obs"
      by simp
    then have m: "Messages s w = (obs, s, w)"
      by (rule Messages_eqI)
    have ne: "obs \<noteq> expected"
      using False o by simp
    have v: "verify (s # loggers) expected w =
         Inl (1, w\<lparr>cerr := cerr w @ ''expected: '' @ emit expected
                   @ ''; but observed: '' @ emit obs @ [nl]\<rparr>)"
      using ne by (simp add: m)
    have "fst (Messages s w) \<noteq> expected \<and> verify (s # loggers) expected w =
         Inl (1, w\<lparr>cerr := cerr w @ ''expected: '' @ emit expected
                   @ ''; but observed: '' @ emit (fst (Messages s w)) @ [nl]\<rparr>)"
      unfolding o using ne v by (rule conjI)
    then show ?thesis
      by (intro bexI [of _ s]) simp_all
  qed
qed

lemma fstream_close_frame:
  "cerr (snd (fstream_close s w)) = cerr w \<and> cout (snd (fstream_close s w)) = cout w"
  by (simp add: fstream_close_def fstream_flush_def split: option.splits prod.splits)

lemma dtor_frame: "cerr (dtor s w) = cerr w \<and> cout (dtor s w) = cout w"
  by (cases s) (simp_all add: LocalLogger_dtor_def fstream_close_frame)

lemma destroy_frame: "cerr (destroy loggers w) = cerr w \<and> cout (destroy loggers w) = cout w"
  by (induction loggers arbitrary: w) (simp_all add: dtor_frame)

lemma testMessages_plain: "concat (map split_nl testMessages) = testMessages"
  by (rule concat_split_nl_plain) (simp add: testMessages_def)

text \<open>
  The run of the specification's first scenario: on a path that can be opened, \<^verbatim>\<open>main\<close>
  returns 0, writes nothing to the streams and leaves the three test messages in the file.
\<close>

lemma main_succeeds:
  assumes "file \<notin> unwritable w"
  shows "main (prog # file # args) w = (0, w\<lparr>files := (files w)(file \<mapsto> emit testMessages)\<rparr>)"
proof -
  let ?l = "\<lparr>filename = file, outfile = \<lparr>is_open = True, path = file, pending = []\<rparr>\<rparr>"
  let ?w1 = "w\<lparr>files := (files w)(file \<mapsto> [])\<rparr>"
  let ?w2 = "w\<lparr>files := (files w)(file \<mapsto> emit testMessages)\<rparr>"
  let ?loggers = "[InMemory \<lparr>messages = testMessages\<rparr>, Local ?l]"
  have c: "LocalLogger_ctor file w = Inr (?l, ?w1)"
    using assms by (rule LocalLogger_ctor_ok)
  have "log_messages testMessages [InMemory InMemoryLogger_ctor, Local ?l] ?w1 =
      ([InMemory (InMemoryLogger_ctor\<lparr>messages := messages InMemoryLogger_ctor @ testMessages\<rparr>), Local ?l],
       ?w1\<lparr>files := (files ?w1)(path (outfile ?l) \<mapsto> [] @ emit testMessages)\<rparr>)"
    by (rule log_messages_main) simp_all
  then have lg: "log_messages testMessages [InMemory InMemoryLogger_ctor, Local ?l] ?w1 = (?loggers, ?w2)"
    by (simp add: InMemoryLogger_ctor_def)
  have "files ?w2 (filename ?l) = Some (emit testMessages)"
    by simp
  from Messages_Local_file [OF this]
  have rl: "fst (Messages (Local ?l) ?w2) = testMessages"
    by (simp add: read_emit testMessages_plain)
  have rm: "fst (Messages (InMemory \<lparr>messages = testMessages\<rparr>) ?w2) = testMessages"
    by (simp add: InMemoryLogger_Messages_def)
  have "\<forall>s\<in>set ?loggers. fst (Messages s ?w2) = testMessages"
    using rl rm by simp
  then have v: "verify ?loggers testMessages ?w2 = Inr (?loggers, ?w2)"
    by (rule verify_pass)
  have d: "destroy ?loggers ?w2 = ?w2"
    by (simp add: LocalLogger_dtor_def fstream_close_def fstream_flush_def)
  have "main (prog # file # args) w = main_verify ?loggers testMessages ?w2"
    by (simp add: main_def c lg)
  also have "\<dots> = (0, ?w2)"
    by (simp only: main_verify_def v d sum.case prod.case)
  finally show ?thesis .
qed

section \<open>The properties\<close>

text \<open>
  C1 (round trip). For every sequence of messages \<open>M\<close>: appended in order to a fresh
  \<^verbatim>\<open>InMemoryLogger\<close>, \<^verbatim>\<open>Messages\<close> returns exactly \<open>M\<close>; appended in order to a
  \<^verbatim>\<open>LocalLogger\<close> that was just constructed on its backing file, \<^verbatim>\<open>Messages\<close> returns
  exactly \<open>M\<close> when no message contains the line terminator. Equality of lists is
  equality of length, elements and order.
\<close>

theorem roundtrip:
  "read_back M (InMemory InMemoryLogger_ctor) w = M \<and>
   (LocalLogger_ctor file w = Inr (l, w1) \<longrightarrow> (\<forall>m\<in>set M. nl \<notin> set m) \<longrightarrow>
      read_back M (Local l) w1 = M)"
proof
  show "read_back M (InMemory InMemoryLogger_ctor) w = M"
    by (simp add: read_back_def Log_seq_InMemory InMemoryLogger_Messages_def InMemoryLogger_ctor_def)
next
  show "LocalLogger_ctor file w = Inr (l, w1) \<longrightarrow> (\<forall>m\<in>set M. nl \<notin> set m) \<longrightarrow>
      read_back M (Local l) w1 = M"
    by (simp add: read_back_fresh_Local concat_split_nl_plain)
qed

theorem roundtrip_witness:
  "LocalLogger_ctor default_filename world0 =
     Inr (\<lparr>filename = default_filename,
           outfile = \<lparr>is_open = True, path = default_filename, pending = []\<rparr>\<rparr>,
          world0\<lparr>files := [default_filename \<mapsto> []]\<rparr>) \<and>
   read_back testMessages (InMemory InMemoryLogger_ctor) world0 = testMessages \<and>
   read_back testMessages
     (Local \<lparr>filename = default_filename,
              outfile = \<lparr>is_open = True, path = default_filename, pending = []\<rparr>\<rparr>)
     (world0\<lparr>files := [default_filename \<mapsto> []]\<rparr>) = testMessages"
proof -
  have c: "LocalLogger_ctor default_filename world0 =
     Inr (\<lparr>filename = default_filename,
           outfile = \<lparr>is_open = True, path = default_filename, pending = []\<rparr>\<rparr>,
          world0\<lparr>files := [default_filename \<mapsto> []]\<rparr>)"
    by (simp add: LocalLogger_ctor_def fstream_open_def fstream_init_def world0_def
        default_filename_def)
  have n: "\<forall>m\<in>set testMessages. nl \<notin> set m"
    by (simp add: testMessages_def)
  show ?thesis
    using c n roundtrip [of testMessages world0 default_filename]
    by simp
qed

text \<open>
  C7 (line terminators inside a message). Whatever the messages are, a \<^verbatim>\<open>LocalLogger\<close>
  that was just constructed returns, after they were appended, every message cut at each of
  its line terminators, the pieces as separate messages (\<open>split_nl\<close>: a message with
  \<open>k\<close> terminators gives \<open>k + 1\<close> pieces, see \<open>split_nl_length\<close>, \<open>split_nl_pieces\<close>
  and \<open>split_nl_join\<close>). So when some message contains a line terminator, more
  messages are read than were appended, and the round trip does not reproduce the input.
\<close>

theorem newline_in_message_splits:
  "LocalLogger_ctor file w = Inr (l, w1) \<longrightarrow>
     read_back M (Local l) w1 = concat (map split_nl M) \<and>
     ((\<exists>m\<in>set M. nl \<in> set m) \<longrightarrow>
        length M < length (read_back M (Local l) w1) \<and> read_back M (Local l) w1 \<noteq> M)"
proof
  assume c: "LocalLogger_ctor file w = Inr (l, w1)"
  have r: "read_back M (Local l) w1 = concat (map split_nl M)"
    using c by (rule read_back_fresh_Local)
  have "length M < length (read_back M (Local l) w1) \<and> read_back M (Local l) w1 \<noteq> M"
    if "\<exists>m\<in>set M. nl \<in> set m"
  proof -
    have "length M < length (read_back M (Local l) w1)"
      using length_concat_split_nl_strict [OF that] r by simp
    then show ?thesis by auto
  qed
  with r show "read_back M (Local l) w1 = concat (map split_nl M) \<and>
     ((\<exists>m\<in>set M. nl \<in> set m) \<longrightarrow>
        length M < length (read_back M (Local l) w1) \<and> read_back M (Local l) w1 \<noteq> M)"
    by simp
qed

theorem newline_in_message_splits_witness:
  "read_back [[CHR ''a'', nl, CHR ''b''], ''c'']
     (Local \<lparr>filename = default_filename,
              outfile = \<lparr>is_open = True, path = default_filename, pending = []\<rparr>\<rparr>)
     (world0\<lparr>files := [default_filename \<mapsto> []]\<rparr>) = [''a'', ''b'', ''c''] \<and>
   length [[CHR ''a'', nl, CHR ''b''], ''c''] <
     length (read_back [[CHR ''a'', nl, CHR ''b''], ''c'']
     (Local \<lparr>filename = default_filename,
              outfile = \<lparr>is_open = True, path = default_filename, pending = []\<rparr>\<rparr>)
     (world0\<lparr>files := [default_filename \<mapsto> []]\<rparr>))"
  using ctor_default_world0
    newline_in_message_splits [of default_filename world0 _ _ "[[CHR ''a'', nl, CHR ''b''], ''c'']"]
  by simp

text \<open>
  C5 (\<^verbatim>\<open>LocalLogger::Log\<close>). On an open write handle whose file holds \<open>c\<close>, \<^verbatim>\<open>Log(m)\<close>
  returns with nothing pending in the handle and with the file extended by what was
  pending, then \<open>m\<close>, then one line terminator: each call writes through. After the
  constructor and the appends of \<open>M\<close> in order, the backing file holds every message of
  \<open>M\<close> followed by a line terminator, in the order of the appends.
\<close>

theorem Log_writes_line_and_flushes:
  "(is_open (outfile l) \<longrightarrow> files w (path (outfile l)) = Some c \<longrightarrow>
      LocalLogger_Log m l w =
        (l\<lparr>outfile := (outfile l)\<lparr>pending := []\<rparr>\<rparr>,
         w\<lparr>files := (files w)(path (outfile l) \<mapsto> c @ pending (outfile l) @ m @ [nl])\<rparr>)) \<and>
   (LocalLogger_ctor file w0 = Inr (l0, w1) \<longrightarrow>
      pending (outfile l0) = [] \<and>
      Log_seq M (Local l0) w1 = (Local l0, w1\<lparr>files := (files w1)(file \<mapsto> emit M)\<rparr>))"
proof (intro conjI impI)
  assume "is_open (outfile l)" and "files w (path (outfile l)) = Some c"
  then show "LocalLogger_Log m l w =
        (l\<lparr>outfile := (outfile l)\<lparr>pending := []\<rparr>\<rparr>,
         w\<lparr>files := (files w)(path (outfile l) \<mapsto> c @ pending (outfile l) @ m @ [nl])\<rparr>)"
    by (rule LocalLogger_Log_open)
next
  assume c: "LocalLogger_ctor file w0 = Inr (l0, w1)"
  note i = LocalLogger_ctor_Inr [OF c]
  show "pending (outfile l0) = []"
    using i(2) by simp
next
  assume c: "LocalLogger_ctor file w0 = Inr (l0, w1)"
  note i = LocalLogger_ctor_Inr [OF c]
  have o: "is_open (outfile l0)" and p: "pending (outfile l0) = []"
    and q: "path (outfile l0) = file"
    using i(2) by simp_all
  have "files w1 (path (outfile l0)) = Some []"
    using i(3) q by simp
  from Log_seq_Local [OF o p this, of M]
  show "Log_seq M (Local l0) w1 = (Local l0, w1\<lparr>files := (files w1)(file \<mapsto> emit M)\<rparr>)"
    using q by simp
qed

theorem Log_writes_line_and_flushes_witness:
  "LocalLogger_Log ''abracadabra''
     \<lparr>filename = ''f'', outfile = \<lparr>is_open = True, path = ''f'', pending = ''x''\<rparr>\<rparr>
     (world0\<lparr>files := [''f'' \<mapsto> ''Hello'']\<rparr>) =
     (\<lparr>filename = ''f'', outfile = \<lparr>is_open = True, path = ''f'', pending = []\<rparr>\<rparr>,
      world0\<lparr>files := [''f'' \<mapsto> ''Hello'' @ ''x'' @ ''abracadabra'' @ [nl]]\<rparr>) \<and>
   Log_seq testMessages
     (Local \<lparr>filename = default_filename,
              outfile = \<lparr>is_open = True, path = default_filename, pending = []\<rparr>\<rparr>)
     (world0\<lparr>files := [default_filename \<mapsto> []]\<rparr>) =
     (Local \<lparr>filename = default_filename,
              outfile = \<lparr>is_open = True, path = default_filename, pending = []\<rparr>\<rparr>,
      world0\<lparr>files := [default_filename \<mapsto>
         ''Hello, World!'' @ [nl] @ ''abracadabra'' @ [nl] @ ''Sayonara!'' @ [nl]]\<rparr>)"
proof -
  have a: "is_open (outfile \<lparr>filename = ''f'', outfile = \<lparr>is_open = True, path = ''f'', pending = ''x''\<rparr>\<rparr>)"
    by simp
  have b: "files (world0\<lparr>files := [''f'' \<mapsto> ''Hello'']\<rparr>)
      (path (outfile \<lparr>filename = ''f'', outfile = \<lparr>is_open = True, path = ''f'', pending = ''x''\<rparr>\<rparr>)) = Some ''Hello''"
    by simp
  note t = Log_writes_line_and_flushes [of
      "\<lparr>filename = ''f'', outfile = \<lparr>is_open = True, path = ''f'', pending = ''x''\<rparr>\<rparr>"
      "world0\<lparr>files := [''f'' \<mapsto> ''Hello'']\<rparr>" "''Hello''" "''abracadabra''"
      default_filename world0 _ _ testMessages]
  have e: "emit testMessages = ''Hello, World!'' @ [nl] @ ''abracadabra'' @ [nl] @ ''Sayonara!'' @ [nl]"
    by (simp add: testMessages_def)
  show ?thesis
    using t a b ctor_default_world0 e by simp
qed

text \<open>
  C6 (fresh sinks). The constructor of \<^verbatim>\<open>LocalLogger\<close> succeeds exactly on a path that can
  be opened for writing. Whenever it succeeds, whatever the file held before, the backing
  file is empty and \<^verbatim>\<open>Messages\<close> on the new logger returns no message. A new
  \<^verbatim>\<open>InMemoryLogger\<close> holds no message either.
\<close>

theorem fresh_sinks_are_empty:
  "((\<exists>l w1. LocalLogger_ctor file w = Inr (l, w1)) = (file \<notin> unwritable w)) \<and>
   (LocalLogger_ctor file w = Inr (l, w1) \<longrightarrow>
      files w1 file = Some [] \<and> fst (Messages (Local l) w1) = []) \<and>
   messages InMemoryLogger_ctor = [] \<and>
   fst (Messages (InMemory InMemoryLogger_ctor) w) = []"
proof (intro conjI impI)
  show "(\<exists>l w1. LocalLogger_ctor file w = Inr (l, w1)) = (file \<notin> unwritable w)"
    by (rule ctor_succeeds_iff)
next
  assume c: "LocalLogger_ctor file w = Inr (l, w1)"
  note i = LocalLogger_ctor_Inr [OF c]
  show "files w1 file = Some []"
    using i(3) by simp
next
  assume c: "LocalLogger_ctor file w = Inr (l, w1)"
  note i = LocalLogger_ctor_Inr [OF c]
  have "files w1 (filename l) = Some []"
    using i(2) i(3) by simp
  from Messages_Local_file [OF this]
  show "fst (Messages (Local l) w1) = []"
    by (simp add: read_Nil)
next
  show "messages InMemoryLogger_ctor = []"
    by (simp add: InMemoryLogger_ctor_def)
next
  show "fst (Messages (InMemory InMemoryLogger_ctor) w) = []"
    by (simp add: InMemoryLogger_Messages_def InMemoryLogger_ctor_def)
qed

theorem fresh_sinks_are_empty_witness:
  "LocalLogger_ctor ''f'' (world0\<lparr>files := [''f'' \<mapsto> ''old content'' @ [nl]]\<rparr>) =
     Inr (\<lparr>filename = ''f'', outfile = \<lparr>is_open = True, path = ''f'', pending = []\<rparr>\<rparr>,
          world0\<lparr>files := [''f'' \<mapsto> []]\<rparr>) \<and>
   files (world0\<lparr>files := [''f'' \<mapsto> []]\<rparr>) ''f'' = Some [] \<and>
   fst (Messages (Local \<lparr>filename = ''f'', outfile = \<lparr>is_open = True, path = ''f'', pending = []\<rparr>\<rparr>)
          (world0\<lparr>files := [''f'' \<mapsto> []]\<rparr>)) = []"
proof -
  have c: "LocalLogger_ctor ''f'' (world0\<lparr>files := [''f'' \<mapsto> ''old content'' @ [nl]]\<rparr>) =
     Inr (\<lparr>filename = ''f'', outfile = \<lparr>is_open = True, path = ''f'', pending = []\<rparr>\<rparr>,
          world0\<lparr>files := [''f'' \<mapsto> []]\<rparr>)"
    by (simp add: LocalLogger_ctor_def fstream_open_def fstream_init_def world0_def)
  show ?thesis
    using c fresh_sinks_are_empty [of "''f''" "world0\<lparr>files := [''f'' \<mapsto> ''old content'' @ [nl]]\<rparr>"]
    by simp
qed

text \<open>
  C10 (backing file that cannot be read). When no file is stored at the logger's path,
  the read handle is opened in failed state, the reading loop returns what it was given
  without a single iteration, and \<^verbatim>\<open>Messages\<close> returns the empty sequence, leaving the
  logger and the world as they were. The result of \<^verbatim>\<open>Messages\<close> has no branch that ends
  the process.
\<close>

theorem Messages_of_missing_file:
  "files w (filename l) = None \<Longrightarrow>
     ifstream_open (filename l) w = (\<lparr>rest = [], ok = False\<rparr>, w) \<and>
     Messages_loop \<lparr>rest = [], ok = False\<rparr> acc = acc \<and>
     LocalLogger_Messages l w = ([], l, w) \<and>
     Messages (Local l) w = ([], Local l, w)"
  by (simp add: LocalLogger_Messages_def ifstream_open_def read_failed)

theorem Messages_of_missing_file_witness:
  "files world0 (filename \<lparr>filename = ''gone'', outfile = \<lparr>is_open = True, path = ''gone'', pending = []\<rparr>\<rparr>) = None \<and>
   Messages (Local \<lparr>filename = ''gone'', outfile = \<lparr>is_open = True, path = ''gone'', pending = []\<rparr>\<rparr>) world0 =
     ([], Local \<lparr>filename = ''gone'', outfile = \<lparr>is_open = True, path = ''gone'', pending = []\<rparr>\<rparr>, world0)"
proof -
  have n: "files world0 (filename \<lparr>filename = ''gone'', outfile = \<lparr>is_open = True, path = ''gone'', pending = []\<rparr>\<rparr>) = None"
    by (simp add: world0_def)
  from Messages_of_missing_file [OF n] n show ?thesis
    by simp
qed

text \<open>
  C4 (reading twice). For every sink of either kind and every world, a second call of
  \<^verbatim>\<open>Messages\<close>, made on the sink and the world that the first call left behind, returns
  the same sequence as the first.
\<close>

theorem Messages_twice_same:
  "fst (Messages (fst (snd (Messages sink w))) (snd (snd (Messages sink w)))) =
     fst (Messages sink w)"
  by (simp add: Messages_frame)

theorem Messages_twice_same_witness:
  "fst (Messages (Local \<lparr>filename = ''f'', outfile = \<lparr>is_open = True, path = ''f'', pending = []\<rparr>\<rparr>)
          (world0\<lparr>files := [''f'' \<mapsto> ''a'' @ [nl] @ ''b'' @ [nl]]\<rparr>)) = [''a'', ''b''] \<and>
   fst (Messages
     (fst (snd (Messages (Local \<lparr>filename = ''f'', outfile = \<lparr>is_open = True, path = ''f'', pending = []\<rparr>\<rparr>)
          (world0\<lparr>files := [''f'' \<mapsto> ''a'' @ [nl] @ ''b'' @ [nl]]\<rparr>))))
     (snd (snd (Messages (Local \<lparr>filename = ''f'', outfile = \<lparr>is_open = True, path = ''f'', pending = []\<rparr>\<rparr>)
          (world0\<lparr>files := [''f'' \<mapsto> ''a'' @ [nl] @ ''b'' @ [nl]]\<rparr>))))) = [''a'', ''b'']"
proof -
  have "fst (Messages (Local \<lparr>filename = ''f'', outfile = \<lparr>is_open = True, path = ''f'', pending = []\<rparr>\<rparr>)
          (world0\<lparr>files := [''f'' \<mapsto> ''a'' @ [nl] @ ''b'' @ [nl]]\<rparr>)) = [''a'', ''b'']"
    using read_two_lines by (simp add: LocalLogger_Messages_def ifstream_open_def)
  then show ?thesis
    using Messages_twice_same [of "Local \<lparr>filename = ''f'', outfile = \<lparr>is_open = True, path = ''f'', pending = []\<rparr>\<rparr>"
        "world0\<lparr>files := [''f'' \<mapsto> ''a'' @ [nl] @ ''b'' @ [nl]]\<rparr>"]
    by simp
qed

text \<open>
  C8 (reading changes nothing). \<^verbatim>\<open>Messages\<close> leaves the sink and the world as they
  were: the sequence held by an \<^verbatim>\<open>InMemoryLogger\<close> is the same afterwards, and for a
  \<^verbatim>\<open>LocalLogger\<close> the write handle, the file name and the content of every file are the
  same afterwards.
\<close>

theorem Messages_changes_nothing:
  "snd (Messages sink w) = (sink, w) \<and>
   messages (snd (InMemoryLogger_Messages m)) = messages m \<and>
   snd (InMemoryLogger_Messages m) = m \<and>
   outfile (fst (snd (LocalLogger_Messages l w))) = outfile l \<and>
   filename (fst (snd (LocalLogger_Messages l w))) = filename l \<and>
   files (snd (snd (LocalLogger_Messages l w))) = files w \<and>
   snd (LocalLogger_Messages l w) = (l, w)"
  by (simp add: Messages_frame LocalLogger_Messages_frame InMemoryLogger_Messages_def)

theorem Messages_changes_nothing_witness:
  "snd (Messages (Local \<lparr>filename = ''f'', outfile = \<lparr>is_open = True, path = ''f'', pending = ''x''\<rparr>\<rparr>)
          (world0\<lparr>files := [''f'' \<mapsto> ''a'' @ [nl] @ ''b'' @ [nl]]\<rparr>)) =
     (Local \<lparr>filename = ''f'', outfile = \<lparr>is_open = True, path = ''f'', pending = ''x''\<rparr>\<rparr>,
      world0\<lparr>files := [''f'' \<mapsto> ''a'' @ [nl] @ ''b'' @ [nl]]\<rparr>) \<and>
   snd (InMemoryLogger_Messages \<lparr>messages = [''a'', ''b'']\<rparr>) = \<lparr>messages = [''a'', ''b'']\<rparr>"
  using Messages_changes_nothing [of
      "Local \<lparr>filename = ''f'', outfile = \<lparr>is_open = True, path = ''f'', pending = ''x''\<rparr>\<rparr>"
      "world0\<lparr>files := [''f'' \<mapsto> ''a'' @ [nl] @ ''b'' @ [nl]]\<rparr>"
      "\<lparr>messages = [''a'', ''b'']\<rparr>"]
  by simp

text \<open>
  C2 (a path that cannot be opened for writing). The constructor of \<^verbatim>\<open>LocalLogger\<close> then
  returns no logger: it ends the process with status 1, after writing to the error stream
  the line \<^verbatim>\<open>Failed to open file: \<close> followed by the path. Nothing else in the world
  changes, so no other file is tried. \<^verbatim>\<open>main\<close>, given the path as its argument, ends with
  that status and that output.
\<close>

theorem unopenable_file_is_fatal:
  "file \<in> unwritable w \<Longrightarrow>
     LocalLogger_ctor file w =
       Inl (1, w\<lparr>cerr := cerr w @ ''Failed to open file: '' @ file @ [nl]\<rparr>) \<and>
     main (prog # file # args) w =
       (1, w\<lparr>cerr := cerr w @ ''Failed to open file: '' @ file @ [nl]\<rparr>)"
  by (simp add: LocalLogger_ctor_fail main_def)

theorem unopenable_file_is_fatal_witness:
  "''/nonexistent_dir/x.txt'' \<in> unwritable world0 \<and>
   main [''inheritance'', ''/nonexistent_dir/x.txt''] world0 =
     (1, world0\<lparr>cerr := ''Failed to open file: /nonexistent_dir/x.txt'' @ [nl]\<rparr>)"
proof -
  have u: "''/nonexistent_dir/x.txt'' \<in> unwritable world0"
    by (simp add: world0_def)
  have e: "cerr world0 = []"
    by (simp add: world0_def)
  from unopenable_file_is_fatal [OF u, of "''inheritance''" "[]"] u e
  show ?thesis by simp
qed

text \<open>
  C9 (order and effect of the appends). The two nested loops of \<^verbatim>\<open>main\<close> do exactly the
  appends of \<open>schedule\<close>, one after the other: the pairs (message index, sink index)
  in an order in which every append of message \<open>i\<close> comes before every append of
  message \<open>i + 1\<close> and, for one message, the sinks come in the order of the collection;
  every pair occurs exactly once, so the appends that go to one sink are the messages, all
  of them, once each, in their original order. And that is what every sink holds
  afterwards: the collection keeps its length; an \<^verbatim>\<open>InMemoryLogger\<close> at any position holds
  what it held before followed by the messages, each once, in their order; a
  \<^verbatim>\<open>LocalLogger\<close> at any position, open with nothing pending and with no other sink of
  the collection attached to its file, is unchanged and its file holds what it held before
  followed by every message with its line terminator, each once, in their order.
\<close>

theorem messages_outer_sinks_inner:
  "log_messages msgs loggers w =
     fold (\<lambda>(i, j). log_at (msgs ! i) j) (schedule (length msgs) (length loggers)) (loggers, w) \<and>
   sorted_wrt earlier (schedule (length msgs) (length loggers)) \<and>
   distinct (schedule (length msgs) (length loggers)) \<and>
   set (schedule (length msgs) (length loggers)) = {0..<length msgs} \<times> {0..<length loggers} \<and>
   (\<forall>j<length loggers.
      map (\<lambda>e. msgs ! fst e) (filter (\<lambda>e. snd e = j) (schedule (length msgs) (length loggers))) = msgs) \<and>
   length (fst (log_messages msgs loggers w)) = length loggers \<and>
   (\<forall>j<length loggers. \<forall>im. loggers ! j = InMemory im \<longrightarrow>
      fst (log_messages msgs loggers w) ! j = InMemory (im\<lparr>messages := messages im @ msgs\<rparr>)) \<and>
   (\<forall>j<length loggers. \<forall>l c.
      loggers ! j = Local l \<longrightarrow> is_open (outfile l) \<longrightarrow> pending (outfile l) = [] \<longrightarrow>
      files w (path (outfile l)) = Some c \<longrightarrow>
      (\<forall>s\<in>set (take j loggers @ drop (Suc j) loggers). \<not> writes_to (path (outfile l)) s) \<longrightarrow>
      fst (log_messages msgs loggers w) ! j = Local l \<and>
      files (snd (log_messages msgs loggers w)) (path (outfile l)) = Some (c @ emit msgs))"
proof (intro conjI allI impI)
  show "log_messages msgs loggers w =
     fold (\<lambda>(i, j). log_at (msgs ! i) j) (schedule (length msgs) (length loggers)) (loggers, w)"
    by (rule log_messages_schedule)
next
  show "sorted_wrt earlier (schedule (length msgs) (length loggers))"
    by (rule schedule_sorted)
next
  show "distinct (schedule (length msgs) (length loggers))"
    by (rule schedule_distinct)
next
  show "set (schedule (length msgs) (length loggers)) = {0..<length msgs} \<times> {0..<length loggers}"
    by (rule schedule_set)
next
  fix j assume j: "j < length loggers"
  have "map (\<lambda>e. msgs ! fst e) (filter (\<lambda>e. snd e = j) (schedule (length msgs) (length loggers))) =
      map ((!) msgs) (map fst (filter (\<lambda>e. snd e = j) (schedule (length msgs) (length loggers))))"
    by (simp add: comp_def)
  also have "\<dots> = map ((!) msgs) [0..<length msgs]"
    by (simp only: schedule_project [OF j])
  also have "\<dots> = msgs"
    by (rule map_nth)
  finally show "map (\<lambda>e. msgs ! fst e) (filter (\<lambda>e. snd e = j) (schedule (length msgs) (length loggers))) = msgs" .
next
  show "length (fst (log_messages msgs loggers w)) = length loggers"
    by (rule log_messages_length)
next
  fix j im assume "j < length loggers" and "loggers ! j = InMemory im"
  then show "fst (log_messages msgs loggers w) ! j = InMemory (im\<lparr>messages := messages im @ msgs\<rparr>)"
    by (rule log_messages_InMemory)
next
  fix j l c
  assume a: "j < length loggers" "loggers ! j = Local l" "is_open (outfile l)"
    "pending (outfile l) = []" "files w (path (outfile l)) = Some c"
    "\<forall>s\<in>set (take j loggers @ drop (Suc j) loggers). \<not> writes_to (path (outfile l)) s"
  note r = log_messages_Local [OF a(3) a(4) a(1) a(2) a(5) a(6), of msgs]
  show "fst (log_messages msgs loggers w) ! j = Local l"
    using r by (rule conjunct1)
  show "files (snd (log_messages msgs loggers w)) (path (outfile l)) = Some (c @ emit msgs)"
    using r by (rule conjunct2)
qed

theorem messages_outer_sinks_inner_witness:
  "log_messages testMessages
     [InMemory InMemoryLogger_ctor,
      Local \<lparr>filename = default_filename,
              outfile = \<lparr>is_open = True, path = default_filename, pending = []\<rparr>\<rparr>]
     (world0\<lparr>files := [default_filename \<mapsto> []]\<rparr>) =
   fold (\<lambda>(i, j). log_at (testMessages ! i) j) [(0, 0), (0, 1), (1, 0), (1, 1), (2, 0), (2, 1)]
     ([InMemory InMemoryLogger_ctor,
       Local \<lparr>filename = default_filename,
               outfile = \<lparr>is_open = True, path = default_filename, pending = []\<rparr>\<rparr>],
      world0\<lparr>files := [default_filename \<mapsto> []]\<rparr>) \<and>
   map (\<lambda>e. testMessages ! fst e)
     (filter (\<lambda>e. snd e = 1) [(0, 0), (0, 1), (1, 0), (1, 1), (2, 0), (2, 1 :: nat)]) = testMessages \<and>
   fst (log_messages testMessages
     [InMemory InMemoryLogger_ctor,
      Local \<lparr>filename = default_filename,
              outfile = \<lparr>is_open = True, path = default_filename, pending = []\<rparr>\<rparr>]
     (world0\<lparr>files := [default_filename \<mapsto> []]\<rparr>)) ! 0 =
     InMemory \<lparr>messages = [''Hello, World!'', ''abracadabra'', ''Sayonara!'']\<rparr> \<and>
   fst (log_messages testMessages
     [InMemory InMemoryLogger_ctor,
      Local \<lparr>filename = default_filename,
              outfile = \<lparr>is_open = True, path = default_filename, pending = []\<rparr>\<rparr>]
     (world0\<lparr>files := [default_filename \<mapsto> []]\<rparr>)) ! 1 =
     Local \<lparr>filename = default_filename,
             outfile = \<lparr>is_open = True, path = default_filename, pending = []\<rparr>\<rparr> \<and>
   files (snd (log_messages testMessages
     [InMemory InMemoryLogger_ctor,
      Local \<lparr>filename = default_filename,
              outfile = \<lparr>is_open = True, path = default_filename, pending = []\<rparr>\<rparr>]
     (world0\<lparr>files := [default_filename \<mapsto> []]\<rparr>))) default_filename =
     Some (''Hello, World!'' @ [nl] @ ''abracadabra'' @ [nl] @ ''Sayonara!'' @ [nl])"
proof -
  let ?l = "\<lparr>filename = default_filename,
              outfile = \<lparr>is_open = True, path = default_filename, pending = []\<rparr>\<rparr>"
  let ?ls = "[InMemory InMemoryLogger_ctor, Local ?l]"
  let ?w = "world0\<lparr>files := [default_filename \<mapsto> []]\<rparr>"
  note t = messages_outer_sinks_inner [of testMessages ?ls ?w]
  note a = t [THEN conjunct1]
  note b = t [THEN conjunct2, THEN conjunct2, THEN conjunct2, THEN conjunct2, THEN conjunct1,
      rule_format, of 1]
  note c = t [THEN conjunct2, THEN conjunct2, THEN conjunct2, THEN conjunct2, THEN conjunct2,
      THEN conjunct2, THEN conjunct1, rule_format, of 0 InMemoryLogger_ctor]
  note d = t [THEN conjunct2, THEN conjunct2, THEN conjunct2, THEN conjunct2, THEN conjunct2,
      THEN conjunct2, THEN conjunct2, rule_format, of 1 ?l "[]"]
  have one: "(1::nat) < length ?ls"
    by simp
  have a': "log_messages testMessages ?ls ?w =
      fold (\<lambda>(i, j). log_at (testMessages ! i) j) [(0, 0), (0, 1), (1, 0), (1, 1), (2, 0), (2, 1)]
        (?ls, ?w)"
    using a unfolding schedule_main .
  have b': "map (\<lambda>e. testMessages ! fst e)
     (filter (\<lambda>e. snd e = 1) [(0, 0), (0, 1), (1, 0), (1, 1), (2, 0), (2, 1 :: nat)]) = testMessages"
    using b [OF one] unfolding schedule_main .
  have "fst (log_messages testMessages ?ls ?w) ! 0 =
      InMemory (InMemoryLogger_ctor\<lparr>messages := messages InMemoryLogger_ctor @ testMessages\<rparr>)"
    by (rule c) simp_all
  then have c': "fst (log_messages testMessages ?ls ?w) ! 0 =
      InMemory \<lparr>messages = [''Hello, World!'', ''abracadabra'', ''Sayonara!'']\<rparr>"
    by (simp add: InMemoryLogger_ctor_def testMessages_def [symmetric])
  have d0: "fst (log_messages testMessages ?ls ?w) ! 1 = Local ?l \<and>
      files (snd (log_messages testMessages ?ls ?w)) (path (outfile ?l)) = Some ([] @ emit testMessages)"
    by (rule d) simp_all
  have e: "emit testMessages = ''Hello, World!'' @ [nl] @ ''abracadabra'' @ [nl] @ ''Sayonara!'' @ [nl]"
    by (simp add: testMessages_def)
  have d1: "fst (log_messages testMessages ?ls ?w) ! 1 = Local ?l"
    using d0 by (rule conjunct1)
  have "files (snd (log_messages testMessages ?ls ?w)) (path (outfile ?l)) = Some ([] @ emit testMessages)"
    using d0 by (rule conjunct2)
  then have d2: "files (snd (log_messages testMessages ?ls ?w)) default_filename =
      Some (''Hello, World!'' @ [nl] @ ''abracadabra'' @ [nl] @ ''Sayonara!'' @ [nl])"
    by (simp add: e)
  show ?thesis
    using a' b' c' d1 d2 by (intro conjI)
qed

text \<open>
  C3 (verification). When the messages of some sink differ from the expected sequence,
  lines 109 to 117 of \<^verbatim>\<open>main\<close> end the process with status 1, after writing to the
  error stream \<^verbatim>\<open>expected: \<close>, the expected sequence, \<^verbatim>\<open>; but observed: \<close>, the
  sequence that a differing sink returned, and a newline. When the messages of every sink
  equal the expected sequence, the process ends with status 0 and nothing was written to
  the error stream or to the standard output.
\<close>

theorem verification_outcome:
  "((\<exists>s\<in>set loggers. fst (Messages s w) \<noteq> expected) \<longrightarrow>
      (\<exists>s\<in>set loggers. fst (Messages s w) \<noteq> expected \<and>
         main_verify loggers expected w =
           (1, w\<lparr>cerr := cerr w @ ''expected: '' @ emit expected
                      @ ''; but observed: '' @ emit (fst (Messages s w)) @ [nl]\<rparr>))) \<and>
   ((\<forall>s\<in>set loggers. fst (Messages s w) = expected) \<longrightarrow>
      fst (main_verify loggers expected w) = 0 \<and>
      cerr (snd (main_verify loggers expected w)) = cerr w \<and>
      cout (snd (main_verify loggers expected w)) = cout w)"
proof (intro conjI impI)
  assume "\<exists>s\<in>set loggers. fst (Messages s w) \<noteq> expected"
  from verify_fail [OF this] obtain s where s: "s \<in> set loggers"
    "fst (Messages s w) \<noteq> expected"
    "verify loggers expected w =
       Inl (1, w\<lparr>cerr := cerr w @ ''expected: '' @ emit expected
                   @ ''; but observed: '' @ emit (fst (Messages s w)) @ [nl]\<rparr>)"
    by blast
  have "main_verify loggers expected w =
           (1, w\<lparr>cerr := cerr w @ ''expected: '' @ emit expected
                      @ ''; but observed: '' @ emit (fst (Messages s w)) @ [nl]\<rparr>)"
    by (simp add: main_verify_def s(3))
  with s(1) s(2) show "\<exists>s\<in>set loggers. fst (Messages s w) \<noteq> expected \<and>
         main_verify loggers expected w =
           (1, w\<lparr>cerr := cerr w @ ''expected: '' @ emit expected
                      @ ''; but observed: '' @ emit (fst (Messages s w)) @ [nl]\<rparr>)"
    by blast
next
  assume a: "\<forall>s\<in>set loggers. fst (Messages s w) = expected"
  have v: "main_verify loggers expected w = (0, destroy loggers w)"
    by (simp add: main_verify_def verify_pass [OF a])
  show "fst (main_verify loggers expected w) = 0"
    by (simp add: v)
  show "cerr (snd (main_verify loggers expected w)) = cerr w"
    by (simp add: v destroy_frame)
  show "cout (snd (main_verify loggers expected w)) = cout w"
    by (simp add: v destroy_frame)
qed

theorem verification_outcome_witness:
  "fst (Messages (InMemory \<lparr>messages = [''Hello'']\<rparr>) world0) \<noteq> [''Hello'', ''World''] \<and>
   main_verify [InMemory \<lparr>messages = [''Hello'']\<rparr>] [''Hello'', ''World''] world0 =
     (1, world0\<lparr>cerr := ''expected: '' @ ''Hello'' @ [nl] @ ''World'' @ [nl]
                    @ ''; but observed: '' @ ''Hello'' @ [nl] @ [nl]\<rparr>) \<and>
   fst (Messages (InMemory \<lparr>messages = [''Hello'', ''World'']\<rparr>) world0) = [''Hello'', ''World''] \<and>
   fst (main_verify [InMemory \<lparr>messages = [''Hello'', ''World'']\<rparr>] [''Hello'', ''World''] world0) = 0 \<and>
   cerr (snd (main_verify [InMemory \<lparr>messages = [''Hello'', ''World'']\<rparr>] [''Hello'', ''World''] world0)) = []"
proof -
  have c: "cerr world0 = []"
    by (simp add: world0_def)
  note bad = verification_outcome [of "[InMemory \<lparr>messages = [''Hello'']\<rparr>]" world0 "[''Hello'', ''World'']"]
  note good = verification_outcome [of "[InMemory \<lparr>messages = [''Hello'', ''World'']\<rparr>]" world0 "[''Hello'', ''World'']"]
  show ?thesis
    using bad good c by (simp add: InMemoryLogger_Messages_def)
qed

end
